theory Spec2Isabelle
  imports Complex_Main
begin

section \<open>The in-place incremental stamper (stamp.cpp)\<close>

text \<open>
  The program copies a PDF verbatim into an output file and then stamps the selected pages
  in batches of \<open>STEP\<close> pages, asking the PDF library for an incremental save after each
  batch. The model below follows \<^verbatim>\<open>parseSpec\<close>, \<^verbatim>\<open>InplaceIncrementalStamp\<close> and
  \<^verbatim>\<open>main\<close> statement by statement. The PDF library and the file system are outside the
  program: what they answer is a parameter of the model (\<open>env\<close>), what the program asks
  of them is recorded (\<open>trace\<close>, \<open>out\<close>). The memory probe \<^verbatim>\<open>Mem\<close> only prints and is
  left out, and so are the geometry of the stamp and its text, which reach nothing but the
  library calls that \<open>StampPage\<close> stands for.
\<close>

subsection \<open>Machine integers, exceptions\<close>

text \<open>
  \<^verbatim>\<open>int\<close> is 32 bits wide. Values are modelled as mathematical integers; the two places
  where the range matters are written out: \<^verbatim>\<open>std::stoi\<close> throws outside the range, and
  incrementing a loop counter past \<open>INT_MAX\<close> is undefined behaviour, which the model
  reports as the fault \<open>Undefined\<close> instead of giving it a meaning.
\<close>

definition INT_MAX :: int where
  "INT_MAX = 2147483647"

definition INT_MIN :: int where
  "INT_MIN = - 2147483648"

datatype fault =
    Invalid_argument          \<comment> \<open>\<^verbatim>\<open>std::invalid_argument\<close> from \<^verbatim>\<open>std::stoi\<close>\<close>
  | Out_of_range              \<comment> \<open>\<^verbatim>\<open>std::out_of_range\<close> from \<^verbatim>\<open>std::stoi\<close>\<close>
  | Runtime_error string      \<comment> \<open>\<^verbatim>\<open>std::runtime_error\<close> with its message\<close>
  | Undefined                 \<comment> \<open>signed overflow of an \<^verbatim>\<open>int\<close> counter\<close>

subsection \<open>The standard library functions the parser calls\<close>

text \<open>\<^verbatim>\<open>isspace\<close> and \<^verbatim>\<open>isdigit\<close> in the C locale, on bytes.\<close>

definition isspace :: "char \<Rightarrow> bool" where
  "isspace c \<longleftrightarrow> (of_char c :: nat) = 32 \<or> (9 \<le> (of_char c :: nat) \<and> (of_char c :: nat) \<le> 13)"

definition isdigit :: "char \<Rightarrow> bool" where
  "isdigit c \<longleftrightarrow> 48 \<le> (of_char c :: nat) \<and> (of_char c :: nat) \<le> 57"

definition digit_val :: "char \<Rightarrow> nat" where
  "digit_val c = of_char c - 48"

text \<open>The value of a run of decimal digits, most significant first.\<close>

fun digits_value :: "nat \<Rightarrow> string \<Rightarrow> nat" where
  "digits_value acc [] = acc"
| "digits_value acc (c # cs) = digits_value (acc * 10 + digit_val c) cs"

text \<open>
  \<^verbatim>\<open>std::stoi(str)\<close>: skip leading white space, read an optional sign and the longest run
  of decimal digits, ignore what follows. No digit: \<^verbatim>\<open>invalid_argument\<close>. A value that
  does not fit an \<^verbatim>\<open>int\<close>: \<^verbatim>\<open>out_of_range\<close>.
\<close>

definition stoi :: "string \<Rightarrow> fault + int" where
  "stoi str =
     (let s1 = dropWhile isspace str;
          neg = (s1 \<noteq> [] \<and> hd s1 = CHR ''-'');
          s2 = (if s1 \<noteq> [] \<and> (hd s1 = CHR ''-'' \<or> hd s1 = CHR ''+'') then tl s1 else s1);
          ds = takeWhile isdigit s2
      in if ds = [] then Inl Invalid_argument
         else let v = (if neg then - int (digits_value 0 ds) else int (digits_value 0 ds))
              in if v < INT_MIN \<or> INT_MAX < v then Inl Out_of_range else Inr v)"

text \<open>
  \<^verbatim>\<open>std::getline(ss, tok, delim)\<close> on the unread rest of the stream: it fails when
  nothing is left; otherwise the token is everything before the first delimiter, and the
  delimiter, when there is one, is consumed.
\<close>

definition getline :: "string \<Rightarrow> char \<Rightarrow> (string \<times> string) option" where
  "getline ss delim =
     (if ss = [] then None
      else Some (takeWhile (\<lambda>c. c \<noteq> delim) ss, drop 1 (dropWhile (\<lambda>c. c \<noteq> delim) ss)))"

text \<open>\<^verbatim>\<open>tok.find(c)\<close>: the index of the first occurrence, \<open>None\<close> for \<^verbatim>\<open>npos\<close>.\<close>

fun find_char :: "string \<Rightarrow> char \<Rightarrow> nat option" where
  "find_char [] c = None"
| "find_char (x # xs) c = (if x = c then Some 0 else map_option Suc (find_char xs c))"

subsection \<open>parseSpec\<close>

text \<open>
  \<^verbatim>\<open>for (int p = a; p <= b; ++p) idx.insert(p);\<close> The same loop serves the spec
  \<^verbatim>\<open>"all"\<close> (from 1 to \<open>maxPage\<close>) and a range token.
\<close>

function insert_range :: "int \<Rightarrow> int \<Rightarrow> int set \<Rightarrow> fault + int set" where
  "insert_range p b idx =
     (if p \<le> b
      then (if p = INT_MAX then Inl Undefined
            else insert_range (p + 1) b (insert p idx))
      else Inr idx)"
  by pat_completeness auto
termination
  by (relation "measure (\<lambda>(p, b, idx). nat (b + 1 - p))") auto

declare insert_range.simps [simp del]

text \<open>The body of the token loop: one token, the set so far, the set after it.\<close>

definition parse_token :: "string \<Rightarrow> int \<Rightarrow> int set \<Rightarrow> fault + int set" where
  "parse_token tok maxPage idx =
     (case find_char tok CHR ''-'' of
        None \<Rightarrow>
          (case stoi tok of
             Inl e \<Rightarrow> Inl e
           | Inr p \<Rightarrow> Inr (if p \<ge> 1 \<and> p \<le> maxPage then insert p idx else idx))
      | Some dash \<Rightarrow>
          (case stoi (take dash tok) of
             Inl e \<Rightarrow> Inl e
           | Inr a0 \<Rightarrow>
               (case stoi (drop (dash + 1) tok) of
                  Inl e \<Rightarrow> Inl e
                | Inr b0 \<Rightarrow>
                    (let a1 = (if a0 > b0 then b0 else a0);
                         b1 = (if a0 > b0 then a0 else b0);
                         a = max a1 1;
                         b = min b1 maxPage
                     in insert_range a b idx))))"

text \<open>\<^verbatim>\<open>while (std::getline(ss, tok, ',')) { ... }\<close> on the unread rest of the stream.\<close>

function parse_loop :: "string \<Rightarrow> int \<Rightarrow> int set \<Rightarrow> fault + int set" where
  "parse_loop ss maxPage idx =
     (case getline ss CHR '','' of
        None \<Rightarrow> Inr idx
      | Some (tok, rest) \<Rightarrow>
          (case parse_token tok maxPage idx of
             Inl e \<Rightarrow> Inl e
           | Inr idx' \<Rightarrow> parse_loop rest maxPage idx'))"
  by pat_completeness auto
termination
proof (relation "measure (\<lambda>(ss, maxPage, idx). length ss)")
  show "wf (measure (\<lambda>(ss, maxPage, idx). length ss))"
    by simp
next
  fix ss :: string and maxPage :: int and idx :: "int set" and x2 tok rest and idx' :: "int set"
  assume g: "getline ss CHR '','' = Some x2" and x2: "(tok, rest) = x2"
  from g have ne: "ss \<noteq> []"
    by (auto simp: getline_def split: if_splits)
  from g x2 have rest: "rest = drop 1 (dropWhile (\<lambda>c. c \<noteq> CHR '','') ss)"
    by (auto simp: getline_def split: if_splits)
  have "length (dropWhile (\<lambda>c. c \<noteq> CHR '','') ss) \<le> length ss"
    by (rule length_dropWhile_le)
  with ne rest have "length rest < length ss"
    by (cases "dropWhile (\<lambda>c. c \<noteq> CHR '','') ss") auto
  then show "((rest, maxPage, idx'), (ss, maxPage, idx)) \<in> measure (\<lambda>(ss, maxPage, idx). length ss)"
    by simp
qed

declare parse_loop.simps [simp del]

definition parseSpec :: "string \<Rightarrow> int \<Rightarrow> fault + int set" where
  "parseSpec spec maxPage =
     (if spec = ''all'' then insert_range 1 maxPage {}
      else parse_loop spec maxPage {})"

subsection \<open>The output file\<close>

text \<open>
  The \<^verbatim>\<open>FILE*\<close> of \<^verbatim>\<open>FileWriter\<close>: the bytes of the file and the position indicator.
  \<^verbatim>\<open>fopen(path, "wb+")\<close> creates or truncates the file; \<^verbatim>\<open>fwrite\<close> writes at the
  position indicator, over the bytes that are there and past the end when it reaches it;
  \<^verbatim>\<open>rewind\<close> sets the position indicator to the beginning of the file.
\<close>

record cfile =
  bytes :: string
  pos :: nat

definition fopen_wb :: cfile where
  "fopen_wb = \<lparr>bytes = [], pos = 0\<rparr>"

definition fwrite :: "string \<Rightarrow> cfile \<Rightarrow> cfile" where
  "fwrite buf f =
     \<lparr>bytes = take (pos f) (bytes f) @ buf @ drop (pos f + length buf) (bytes f),
      pos = pos f + length buf\<rparr>"

definition rewind :: "cfile \<Rightarrow> cfile" where
  "rewind f = f\<lparr>pos := 0\<rparr>"

text \<open>\<^verbatim>\<open>std::vector<char> buf(1<<20)\<close>\<close>

definition BUF_SIZE :: nat where
  "BUF_SIZE = 1048576"

text \<open>
  \<^verbatim>\<open>while (src) { src.read(buf.data(), buf.size()); fwrite(buf.data(), 1, src.gcount(), fw.fp); }\<close>
  on the unread rest of the input file. A read that finds fewer bytes than the buffer
  holds delivers them and leaves the stream failed, which ends the loop.
\<close>

function copy_loop :: "string \<Rightarrow> bool \<Rightarrow> cfile \<Rightarrow> cfile" where
  "copy_loop src good f =
     (if good
      then copy_loop (drop BUF_SIZE src) (BUF_SIZE \<le> length src) (fwrite (take BUF_SIZE src) f)
      else f)"
  by pat_completeness auto
termination
  by (relation "measure (\<lambda>(src, good, f). length src + (if good then 1 else 0))")
     (auto simp: BUF_SIZE_def)

declare copy_loop.simps [simp del]

text \<open>Steps 3a and 3b: copy the original bytes, flush, rewind.\<close>

definition prepare_output :: "string \<Rightarrow> cfile \<Rightarrow> cfile" where
  "prepare_output input f = rewind (copy_loop input True f)"

subsection \<open>The library and the file system\<close>

text \<open>
  What the world outside the program answers. A page is loaded at most once and a save
  is issued at most once per batch, so an answer per page index and per batch start
  covers every behaviour of the library. The input and the output path name different
  files, the input file is the same each time it is opened, and a write to the output
  file, once it is open, succeeds.
\<close>

record env =
  in_bytes :: "string option"          \<comment> \<open>the bytes of \<^verbatim>\<open>inPath\<close>; \<open>None\<close>: it cannot be opened\<close>
  out_before :: "string option"        \<comment> \<open>the bytes of \<^verbatim>\<open>outPath\<close> before the run, if it exists\<close>
  out_opens :: bool                    \<comment> \<open>\<^verbatim>\<open>fopen(outPath, "wb+")\<close> succeeds\<close>
  doc_loads :: bool                    \<comment> \<open>\<^verbatim>\<open>FPDF_LoadCustomDocument\<close> returns a document\<close>
  page_count :: int                    \<comment> \<open>\<^verbatim>\<open>FPDF_GetPageCount(doc)\<close>\<close>
  page_loads :: "int \<Rightarrow> bool"          \<comment> \<open>\<^verbatim>\<open>FPDF_LoadPage(doc, index)\<close> returns a page\<close>
  save_ok :: "int \<Rightarrow> bool"             \<comment> \<open>\<^verbatim>\<open>FPDF_SaveWithVersion\<close> of the batch that begins at this page\<close>
  save_blocks :: "int \<Rightarrow> string list"  \<comment> \<open>the blocks that call hands to \<^verbatim>\<open>WriteBlock\<close>, in order\<close>

text \<open>
  The calls of the library, in the order the program makes them. \<open>StampPage p\<close> stands
  for the calls that build the text object and attach it to page \<open>p\<close> (from
  \<^verbatim>\<open>FPDFPageObj_NewTextObj\<close> to \<^verbatim>\<open>FPDFPage_GenerateContent\<close>).
\<close>

datatype event =
    InitLibrary
  | LoadCustomDocument
  | GetLastError
  | GetPageCount
  | LoadPage int          \<comment> \<open>the index passed, \<open>p - 1\<close>\<close>
  | StampPage int
  | ClosePage int
  | SaveWithVersion
  | CloseDocument
  | DestroyLibrary

datatype diag = Load_err | No_pages_matched | Save_err

datatype outcome =
    Returned_true
  | Returned_false diag     \<comment> \<open>\<^verbatim>\<open>return false\<close> after the diagnostic line\<close>
  | Raised fault

record world =
  trace :: "event list"
  out :: "cfile option"     \<comment> \<open>\<open>None\<close>: the program has not opened \<^verbatim>\<open>outPath\<close>\<close>

text \<open>The bytes of \<^verbatim>\<open>outPath\<close> on disk, given what the program did to it.\<close>

definition out_bytes :: "env \<Rightarrow> world \<Rightarrow> string option" where
  "out_bytes env w = (case out w of None \<Rightarrow> out_before env | Some f \<Rightarrow> Some (bytes f))"

subsection \<open>InplaceIncrementalStamp\<close>

definition STEP :: int where
  "STEP = 40"

text \<open>One round of the page loop: the calls made for page \<open>p\<close>.\<close>

definition page_events :: "env \<Rightarrow> int set \<Rightarrow> int \<Rightarrow> event list" where
  "page_events env wanted p =
     (if p \<notin> wanted then []
      else if page_loads env (p - 1) then [LoadPage (p - 1), StampPage p, ClosePage p]
      else [LoadPage (p - 1)])"

text \<open>
  \<^verbatim>\<open>for (int p = start; p <= end; ++p) { ... }\<close> The caller has computed
  \<^verbatim>\<open>start + STEP - 1\<close> without overflow, and \<open>endp\<close> is at most that, so \<^verbatim>\<open>++p\<close>
  stays in range.
\<close>

function page_loop :: "env \<Rightarrow> int set \<Rightarrow> int \<Rightarrow> int \<Rightarrow> event list \<Rightarrow> event list" where
  "page_loop env wanted p endp tr =
     (if p \<le> endp then page_loop env wanted (p + 1) endp (tr @ page_events env wanted p)
      else tr)"
  by pat_completeness auto
termination
  by (relation "measure (\<lambda>(env, wanted, p, endp, tr). nat (endp + 1 - p))") auto

declare page_loop.simps [simp del]

text \<open>
  \<^verbatim>\<open>FPDF_SaveWithVersion(doc, &fw, FPDF_INCREMENTAL, 17)\<close>: the library hands its blocks
  to \<^verbatim>\<open>FileWriter::W\<close>, which writes each at the position indicator of \<^verbatim>\<open>fw.fp\<close>.
\<close>

definition save :: "env \<Rightarrow> int \<Rightarrow> world \<Rightarrow> world" where
  "save env start w =
     \<lparr>trace = trace w @ [SaveWithVersion],
      out = map_option (\<lambda>f. foldl (\<lambda>g block. fwrite block g) f (save_blocks env start)) (out w)\<rparr>"

text \<open>
  One round of the batch loop, up to the call of the save: the page loop from \<open>start\<close>
  to \<^verbatim>\<open>end = std::min(start + STEP - 1, pageCount)\<close>, then the save.
\<close>

definition batch_body :: "env \<Rightarrow> int set \<Rightarrow> int \<Rightarrow> world \<Rightarrow> world" where
  "batch_body env wanted start w =
     (let endp = min (start + STEP - 1) (page_count env);
          w1 = w\<lparr>trace := page_loop env wanted start endp (trace w)\<rparr>
      in save env start w1)"

text \<open>
  \<^verbatim>\<open>for (int start = 1; start <= pageCount; start += STEP) { ... }\<close> The result is
  \<open>Some\<close> of how the function left the loop early, and \<open>None\<close> when the loop ran to
  its end.
\<close>

function batch_loop :: "env \<Rightarrow> int set \<Rightarrow> int \<Rightarrow> world \<Rightarrow> outcome option \<times> world" where
  "batch_loop env wanted start w =
     (if start \<le> page_count env
      then (if INT_MAX < start + STEP then (Some (Raised Undefined), w)
            else if save_ok env start
            then batch_loop env wanted (start + STEP) (batch_body env wanted start w)
            else (Some (Returned_false Save_err), batch_body env wanted start w))
      else (None, w))"
  by pat_completeness auto
termination
  by (relation "measure (\<lambda>(env, wanted, start, w). nat (page_count env + 1 - start))")
     (simp_all add: STEP_def)

declare batch_loop.simps [simp del]

text \<open>
  The routine itself. Its arguments \<^verbatim>\<open>rdr\<close>, \<^verbatim>\<open>inPath\<close> and \<^verbatim>\<open>outPath\<close> are what
  \<open>env\<close> answers for; \<open>spec\<close> is the selection spec. The result is how the routine
  ends and what it has done by then. An exception leaves the routine where it is thrown:
  nothing after it runs, the clean-up included.
\<close>

definition InplaceIncrementalStamp :: "env \<Rightarrow> string \<Rightarrow> outcome \<times> world" where
  "InplaceIncrementalStamp env spec =
     (let w0 = \<lparr>trace = [InitLibrary, LoadCustomDocument], out = None\<rparr>
      in if doc_loads env
         then
           (let w1 = w0\<lparr>trace := trace w0 @ [GetPageCount]\<rparr>
            in case parseSpec spec (page_count env) of
                 Inl e \<Rightarrow> (Raised e, w1)
               | Inr wanted \<Rightarrow>
                   if wanted = {} then (Returned_false No_pages_matched, w1)
                   else if out_opens env
                   then
                     (case in_bytes env of
                        None \<Rightarrow>
                          (Raised (Runtime_error ''open input for copy''), w1\<lparr>out := Some fopen_wb\<rparr>)
                      | Some input \<Rightarrow>
                          (case batch_loop env wanted 1 (w1\<lparr>out := Some (prepare_output input fopen_wb)\<rparr>) of
                             (Some oc, w2) \<Rightarrow> (oc, w2)
                           | (None, w2) \<Rightarrow>
                               (Returned_true, w2\<lparr>trace := trace w2 @ [CloseDocument, DestroyLibrary]\<rparr>)))
                   else (Raised (Runtime_error ''open out''), w1))
         else (Returned_false Load_err, w0\<lparr>trace := trace w0 @ [GetLastError]\<rparr>))"

subsection \<open>main\<close>

text \<open>
  The arguments after the program's name. The exit status is \<open>None\<close> where the run has
  no defined behaviour. \<^verbatim>\<open>FileReader\<close> throws when the input cannot be opened; every
  exception ends in the handler, which returns 1.
\<close>

definition main :: "env \<Rightarrow> string list \<Rightarrow> int option \<times> world" where
  "main env args =
     (if length args < 1 then (Some 1, \<lparr>trace = [], out = None\<rparr>)
      else
        (let spec = (if length args \<ge> 2 then args ! 1 else ''all'')
         in case in_bytes env of
              None \<Rightarrow> (Some 1, \<lparr>trace = [], out = None\<rparr>)
            | Some input \<Rightarrow>
                (case InplaceIncrementalStamp env spec of
                   (Returned_true, w) \<Rightarrow> (Some 0, w)
                 | (Returned_false d, w) \<Rightarrow> (Some 1, w)
                 | (Raised Undefined, w) \<Rightarrow> (None, w)
                 | (Raised e, w) \<Rightarrow> (Some 1, w))))"

subsection \<open>Notions the statements below use\<close>

text \<open>
  A plain decimal numeral, as a selection spec writes an integer: no sign for a natural
  number, a leading minus sign for a negative integer.
\<close>

definition digit_char :: "nat \<Rightarrow> char" where
  "digit_char d = char_of (48 + d)"

fun show_nat :: "nat \<Rightarrow> string" where
  "show_nat n = (if n < 10 then [digit_char n] else show_nat (n div 10) @ [digit_char (n mod 10)])"

declare show_nat.simps [simp del]

definition show_int :: "int \<Rightarrow> string" where
  "show_int i = (if i < 0 then CHR ''-'' # show_nat (nat (- i)) else show_nat (nat i))"

text \<open>
  The batches as the specification describes them: batch \<open>k\<close> (from 0) covers the pages
  from \<open>STEP * k + 1\<close> to \<open>STEP * k + STEP\<close>, cut off at the page count, and there are
  as many batches as it takes to reach the page count.
\<close>

definition spec_batches :: "int \<Rightarrow> (int \<times> int) list" where
  "spec_batches n =
     map (\<lambda>k. (STEP * int k + 1, min (STEP * int k + STEP) n)) [0..<nat ((n + STEP - 1) div STEP)]"

text \<open>The calls of one batch: those of its pages in increasing order, then one save.\<close>

definition batch_events :: "env \<Rightarrow> int set \<Rightarrow> int \<times> int \<Rightarrow> event list" where
  "batch_events env wanted b =
     concat (map (page_events env wanted) [fst b..snd b]) @ [SaveWithVersion]"

text \<open>The calls that stamp page \<open>p\<close> when it is selected and loads.\<close>

definition stamp_calls :: "int \<Rightarrow> event list" where
  "stamp_calls p = [LoadPage (p - 1), StampPage p, ClosePage p]"

text \<open>
  A library and file system for the examples: the input file opens and holds \<open>input\<close>,
  the output file does not exist yet and can be created, the document loads and has \<open>n\<close>
  pages, every page loads, every save succeeds and writes the one block \<open>xy\<close>.
\<close>

definition sample_env :: "string \<Rightarrow> int \<Rightarrow> env" where
  "sample_env input n =
     \<lparr>in_bytes = Some input, out_before = None, out_opens = True, doc_loads = True,
      page_count = n, page_loads = (\<lambda>i. True), save_ok = (\<lambda>s. True),
      save_blocks = (\<lambda>s. [''xy''])\<rparr>"

section \<open>Facts about the model\<close>

subsection \<open>The loops in closed form\<close>

lemma insert_range_eq:
  "b < INT_MAX \<Longrightarrow> insert_range p b idx = Inr (idx \<union> {p..b})"
proof (induction p b idx rule: insert_range.induct)
  case (1 p b idx)
  show ?case
  proof (cases "p \<le> b")
    case True
    with "1.prems" have ne: "p \<noteq> INT_MAX" by simp
    have "{p..b} = insert p {p + 1..b}"
      using True by auto
    with True ne "1.IH" "1.prems" show ?thesis
      by (subst insert_range.simps) simp
  next
    case False
    then show ?thesis
      by (subst insert_range.simps) simp
  qed
qed

lemma insert_range_empty:
  "b < p \<Longrightarrow> insert_range p b idx = Inr idx"
  by (subst insert_range.simps) simp

lemma copy_loop_appends:
  "pos f = length (bytes f) \<Longrightarrow>
   copy_loop src good f =
     (if good then \<lparr>bytes = bytes f @ src, pos = length (bytes f) + length src\<rparr> else f)"
proof (induction src good f rule: copy_loop.induct)
  case (1 src good f)
  show ?case
  proof (cases good)
    case True
    let ?g = "fwrite (take BUF_SIZE src) f"
    have g: "bytes ?g = bytes f @ take BUF_SIZE src" "pos ?g = length (bytes ?g)"
      using "1.prems" by (simp_all add: fwrite_def)
    show ?thesis
    proof (cases "BUF_SIZE \<le> length src")
      case long: True
      with True "1.IH" [OF True g(2)] g show ?thesis
        by (subst copy_loop.simps) (simp add: min_def)
    next
      case short: False
      with True "1.IH" [OF True g(2)] g show ?thesis
        by (subst copy_loop.simps) (simp add: "1.prems")
    qed
  next
    case False
    then show ?thesis
      by (subst copy_loop.simps) simp
  qed
qed

lemma prepare_output_eq:
  "prepare_output input fopen_wb = \<lparr>bytes = input, pos = 0\<rparr>"
  by (simp add: prepare_output_def copy_loop_appends fopen_wb_def rewind_def)

lemma page_loop_eq:
  "page_loop env wanted p endp tr = tr @ concat (map (page_events env wanted) [p..endp])"
proof (induction env wanted p endp tr rule: page_loop.induct)
  case (1 env wanted p endp tr)
  show ?case
  proof (cases "p \<le> endp")
    case True
    then have "[p..endp] = p # [p + 1..endp]"
      by (simp add: upto_rec1)
    with True "1.IH" show ?thesis
      by (subst page_loop.simps) simp
  next
    case False
    then show ?thesis
      by (subst page_loop.simps) simp
  qed
qed


lemma parseSpec_empty: "parseSpec [] maxPage = Inr {}"
  by (simp add: parseSpec_def parse_loop.simps getline_def)

lemma parseSpec_all_zero: "parseSpec ''all'' 0 = Inr {}"
  by (simp add: parseSpec_def insert_range_empty)

subsection \<open>The batch loop and the batches of the specification\<close>

lemma length_spec_batches: "length (spec_batches n) = nat ((n + STEP - 1) div STEP)"
  by (simp add: spec_batches_def)

lemma batch_index_less: "int j < (n + STEP - 1) div STEP \<longleftrightarrow> STEP * int j + 1 \<le> n"
proof -
  define q r where "q = (n + 39) div 40" and "r = (n + 39) mod 40"
  have "n + 39 = 40 * q + r"
    unfolding q_def r_def by simp
  moreover have "0 \<le> r" "r < 40"
    unfolding r_def by simp_all
  ultimately have "int j < q \<longleftrightarrow> 40 * int j + 1 \<le> n"
    by linarith
  moreover have "n + STEP - 1 = n + 39"
    by (simp add: STEP_def)
  ultimately show ?thesis
    by (simp only: q_def STEP_def)
qed

lemma batch_index_less_nat: "j < length (spec_batches n) \<longleftrightarrow> STEP * int j + 1 \<le> n"
  using batch_index_less [of j n] by (simp add: length_spec_batches) linarith

lemma spec_batches_nth:
  "j < length (spec_batches n) \<Longrightarrow>
   spec_batches n ! j = (STEP * int j + 1, min (STEP * int j + STEP) n)"
  by (simp add: spec_batches_def)

lemma batch_body_trace:
  "trace (batch_body env wanted start w) =
     trace w @ batch_events env wanted (start, min (start + STEP - 1) (page_count env))"
  by (simp add: batch_body_def save_def batch_events_def page_loop_eq Let_def)

lemma batch_loop_all_saved:
  assumes range: "page_count env \<le> INT_MAX - STEP"
  shows "j \<le> length (spec_batches (page_count env)) \<Longrightarrow>
         (\<forall>k. j \<le> k \<and> k < length (spec_batches (page_count env)) \<longrightarrow> save_ok env (STEP * int k + 1)) \<Longrightarrow>
         fst (batch_loop env wanted (STEP * int j + 1) w) = None \<and>
         trace (snd (batch_loop env wanted (STEP * int j + 1) w)) =
           trace w @ concat (map (batch_events env wanted) (drop j (spec_batches (page_count env))))"
proof (induction "length (spec_batches (page_count env)) - j" arbitrary: j w)
  case 0
  then have "j = length (spec_batches (page_count env))" by simp
  then have "\<not> STEP * int j + 1 \<le> page_count env"
    using batch_index_less_nat [of j "page_count env"] by simp
  with \<open>j = length (spec_batches (page_count env))\<close> show ?case
    by (subst (1 2) batch_loop.simps) simp
next
  case (Suc d)
  let ?n = "page_count env"
  let ?s = "STEP * int j + 1"
  from Suc.hyps(2) have j: "j < length (spec_batches ?n)" by simp
  then have le: "?s \<le> ?n"
    by (simp add: batch_index_less_nat)
  with range have no_ovf: "\<not> INT_MAX < ?s + STEP" by simp
  from Suc.prems(2) j have ok: "save_ok env ?s" by simp
  have next_start: "?s + STEP = STEP * int (Suc j) + 1"
    by (simp add: algebra_simps)
  have "batch_loop env wanted ?s w =
        batch_loop env wanted (?s + STEP) (batch_body env wanted ?s w)"
    using le no_ovf ok by (subst batch_loop.simps) simp
  then have step: "batch_loop env wanted ?s w =
              batch_loop env wanted (STEP * int (Suc j) + 1) (batch_body env wanted ?s w)"
    by (simp only: next_start)
  have d: "d = length (spec_batches ?n) - Suc j"
    using Suc.hyps(2) by simp
  have IH: "fst (batch_loop env wanted (STEP * int (Suc j) + 1) (batch_body env wanted ?s w)) = None \<and>
        trace (snd (batch_loop env wanted (STEP * int (Suc j) + 1) (batch_body env wanted ?s w))) =
        trace (batch_body env wanted ?s w) @
          concat (map (batch_events env wanted) (drop (Suc j) (spec_batches ?n)))"
    using Suc.hyps(1) [OF d, of "batch_body env wanted ?s w"] j Suc.prems(2) by simp
  have nth: "spec_batches ?n ! j = (?s, min (?s + STEP - 1) ?n)"
    using spec_batches_nth [OF j] by (simp add: algebra_simps)
  have dr: "drop j (spec_batches ?n) = (?s, min (?s + STEP - 1) ?n) # drop (Suc j) (spec_batches ?n)"
    using Cons_nth_drop_Suc [OF j] nth by simp
  show ?case
    unfolding step dr using IH by (simp add: batch_body_trace)
qed

lemma batch_loop_save_fails:
  assumes range: "page_count env \<le> INT_MAX - STEP"
      and k: "k < length (spec_batches (page_count env))"
      and bad: "\<not> save_ok env (STEP * int k + 1)"
  shows "j \<le> k \<Longrightarrow>
         (\<forall>i. j \<le> i \<and> i < k \<longrightarrow> save_ok env (STEP * int i + 1)) \<Longrightarrow>
         fst (batch_loop env wanted (STEP * int j + 1) w) = Some (Returned_false Save_err) \<and>
         trace (snd (batch_loop env wanted (STEP * int j + 1) w)) =
           trace w @ concat (map (batch_events env wanted) (drop j (take (Suc k) (spec_batches (page_count env)))))"
proof (induction "k - j" arbitrary: j w)
  case 0
  let ?n = "page_count env"
  let ?s = "STEP * int k + 1"
  from 0 have jk: "j = k" by simp
  from k have le: "?s \<le> ?n"
    by (simp add: batch_index_less_nat)
  with range have no_ovf: "\<not> INT_MAX < ?s + STEP" by simp
  have step: "batch_loop env wanted ?s w = (Some (Returned_false Save_err), batch_body env wanted ?s w)"
    using le no_ovf bad by (subst batch_loop.simps) simp
  have nth: "spec_batches ?n ! k = (?s, min (?s + STEP - 1) ?n)"
    using spec_batches_nth [OF k] by (simp add: algebra_simps)
  have "drop k (take (Suc k) (spec_batches ?n)) = [spec_batches ?n ! k]"
    using k by (simp add: take_Suc_conv_app_nth)
  with nth have dr: "drop k (take (Suc k) (spec_batches ?n)) = [(?s, min (?s + STEP - 1) ?n)]"
    by simp
  show ?case
    unfolding jk step dr by (simp add: batch_body_trace)
next
  case (Suc d)
  let ?n = "page_count env"
  let ?s = "STEP * int j + 1"
  from Suc.hyps(2) have jk: "j < k" by simp
  with k have j: "j < length (spec_batches ?n)" by simp
  then have le: "?s \<le> ?n"
    by (simp add: batch_index_less_nat)
  with range have no_ovf: "\<not> INT_MAX < ?s + STEP" by simp
  from Suc.prems(2) jk have ok: "save_ok env ?s" by simp
  have next_start: "?s + STEP = STEP * int (Suc j) + 1"
    by (simp add: algebra_simps)
  have "batch_loop env wanted ?s w =
        batch_loop env wanted (?s + STEP) (batch_body env wanted ?s w)"
    using le no_ovf ok by (subst batch_loop.simps) simp
  then have step: "batch_loop env wanted ?s w =
              batch_loop env wanted (STEP * int (Suc j) + 1) (batch_body env wanted ?s w)"
    by (simp only: next_start)
  have d: "d = k - Suc j"
    using Suc.hyps(2) by simp
  have IH: "fst (batch_loop env wanted (STEP * int (Suc j) + 1) (batch_body env wanted ?s w)) =
          Some (Returned_false Save_err) \<and>
        trace (snd (batch_loop env wanted (STEP * int (Suc j) + 1) (batch_body env wanted ?s w))) =
        trace (batch_body env wanted ?s w) @
          concat (map (batch_events env wanted) (drop (Suc j) (take (Suc k) (spec_batches ?n))))"
    using Suc.hyps(1) [OF d, of "batch_body env wanted ?s w"] jk Suc.prems(2) by simp
  have nth: "spec_batches ?n ! j = (?s, min (?s + STEP - 1) ?n)"
    using spec_batches_nth [OF j] by (simp add: algebra_simps)
  have j': "j < length (take (Suc k) (spec_batches ?n))"
    using jk k by simp
  have "take (Suc k) (spec_batches ?n) ! j = spec_batches ?n ! j"
    using jk by simp
  with nth have dr: "drop j (take (Suc k) (spec_batches ?n)) =
      (?s, min (?s + STEP - 1) ?n) # drop (Suc j) (take (Suc k) (spec_batches ?n))"
    using Cons_nth_drop_Suc [OF j'] by simp
  show ?case
    unfolding step dr using IH by (simp add: batch_body_trace)
qed

lemma run_all_saved:
  assumes "doc_loads env" and "out_opens env" and "in_bytes env = Some input"
      and "parseSpec spec (page_count env) = Inr wanted" and "wanted \<noteq> {}"
      and "page_count env \<le> INT_MAX - STEP"
      and "\<forall>k. k < length (spec_batches (page_count env)) \<longrightarrow> save_ok env (STEP * int k + 1)"
  shows "fst (InplaceIncrementalStamp env spec) = Returned_true \<and>
         trace (snd (InplaceIncrementalStamp env spec)) =
           [InitLibrary, LoadCustomDocument, GetPageCount] @
           concat (map (batch_events env wanted) (spec_batches (page_count env))) @
           [CloseDocument, DestroyLibrary]"
proof -
  let ?w = "\<lparr>trace = [InitLibrary, LoadCustomDocument, GetPageCount],
             out = Some (prepare_output input fopen_wb)\<rparr>"
  have loop: "fst (batch_loop env wanted 1 ?w) = None \<and>
        trace (snd (batch_loop env wanted 1 ?w)) =
          trace ?w @ concat (map (batch_events env wanted) (spec_batches (page_count env)))"
    using batch_loop_all_saved [OF assms(6), of 0 wanted ?w] assms(7) by simp
  obtain oc w2 where r: "batch_loop env wanted 1 ?w = (oc, w2)"
    by (cases "batch_loop env wanted 1 ?w")
  with loop have oc: "oc = None"
    and tr: "trace w2 = [InitLibrary, LoadCustomDocument, GetPageCount] @
               concat (map (batch_events env wanted) (spec_batches (page_count env)))"
    by simp_all
  show ?thesis
    using assms(1-5) r oc tr by (simp add: InplaceIncrementalStamp_def)
qed

lemma run_save_fails:
  assumes "doc_loads env" and "out_opens env" and "in_bytes env = Some input"
      and "parseSpec spec (page_count env) = Inr wanted" and "wanted \<noteq> {}"
      and "page_count env \<le> INT_MAX - STEP"
      and "k < length (spec_batches (page_count env))"
      and "\<not> save_ok env (STEP * int k + 1)"
      and "\<forall>i. i < k \<longrightarrow> save_ok env (STEP * int i + 1)"
  shows "fst (InplaceIncrementalStamp env spec) = Returned_false Save_err \<and>
         trace (snd (InplaceIncrementalStamp env spec)) =
           [InitLibrary, LoadCustomDocument, GetPageCount] @
           concat (map (batch_events env wanted) (take (Suc k) (spec_batches (page_count env))))"
proof -
  let ?w = "\<lparr>trace = [InitLibrary, LoadCustomDocument, GetPageCount],
             out = Some (prepare_output input fopen_wb)\<rparr>"
  have loop: "fst (batch_loop env wanted 1 ?w) = Some (Returned_false Save_err) \<and>
        trace (snd (batch_loop env wanted 1 ?w)) =
          trace ?w @ concat (map (batch_events env wanted) (take (Suc k) (spec_batches (page_count env))))"
    using batch_loop_save_fails [OF assms(6) assms(7) assms(8), of 0 wanted ?w] assms(9) by simp
  obtain oc w2 where r: "batch_loop env wanted 1 ?w = (oc, w2)"
    by (cases "batch_loop env wanted 1 ?w")
  with loop have oc: "oc = Some (Returned_false Save_err)"
    and tr: "trace w2 = [InitLibrary, LoadCustomDocument, GetPageCount] @
               concat (map (batch_events env wanted) (take (Suc k) (spec_batches (page_count env))))"
    by simp_all
  show ?thesis
    using assms(1-5) r oc tr by (simp add: InplaceIncrementalStamp_def)
qed

lemma main_exit_status:
  assumes "in_bytes env = Some input"
  shows "fst (main env (inp # spec # args)) =
           (case fst (InplaceIncrementalStamp env spec) of
              Returned_true \<Rightarrow> Some 0
            | Returned_false d \<Rightarrow> Some 1
            | Raised Undefined \<Rightarrow> None
            | Raised e \<Rightarrow> Some 1)"
    and "snd (main env (inp # spec # args)) = snd (InplaceIncrementalStamp env spec)"
  using assms
  by (cases "InplaceIncrementalStamp env spec"; simp add: main_def split: outcome.splits fault.splits)+

lemma count_page_events: "count_list (page_events env wanted p) SaveWithVersion = 0"
  by (simp add: page_events_def)

lemma count_list_concat_zero:
  "(\<And>x. x \<in> set xss \<Longrightarrow> count_list x a = 0) \<Longrightarrow> count_list (concat xss) a = 0"
  by (induction xss) simp_all

lemma count_batch_events: "count_list (batch_events env wanted b) SaveWithVersion = 1"
proof -
  have "count_list (concat (map (page_events env wanted) [fst b..snd b])) SaveWithVersion = 0"
    by (rule count_list_concat_zero) (auto simp: count_page_events)
  then show ?thesis
    by (simp add: batch_events_def)
qed

lemma count_batches:
  "count_list (concat (map (batch_events env wanted) bs)) SaveWithVersion = length bs"
  by (induction bs) (simp_all add: count_batch_events)

lemma spec_batches_partition:
  "concat (map (\<lambda>b. [fst b..snd b]) (spec_batches n)) = [1..n]"
proof -
  have part: "m \<le> length (spec_batches n) \<Longrightarrow>
        concat (map (\<lambda>b. [fst b..snd b]) (take m (spec_batches n))) = [1..min (STEP * int m) n]" for m
  proof (induction m)
    case 0
    have "min 0 n < 1" by simp
    then show ?case by simp
  next
    case (Suc m)
    then have m: "m < length (spec_batches n)" by simp
    then have le: "STEP * int m + 1 \<le> n"
      by (simp add: batch_index_less_nat)
    then have mn: "min (STEP * int m) n = STEP * int m" by simp
    have e: "STEP * int m + 1 \<le> min (STEP * int m + STEP) n + 1"
      using le by (simp add: STEP_def)
    have "[1..min (STEP * int (Suc m)) n] =
          [1..STEP * int m] @ [STEP * int m + 1..min (STEP * int m + STEP) n]"
      using upto_split1 [of 1 "STEP * int m + 1" "min (STEP * int m + STEP) n"] le
      by (simp add: STEP_def algebra_simps)
    with Suc.IH m mn show ?case
      by (simp add: take_Suc_conv_app_nth spec_batches_nth)
  qed
  have "\<not> STEP * int (length (spec_batches n)) + 1 \<le> n"
    using batch_index_less_nat [of "length (spec_batches n)" n] by simp
  then have "min (STEP * int (length (spec_batches n))) n = n"
    by simp
  with part [of "length (spec_batches n)"] show ?thesis
    by simp
qed

lemma spec_batches_sizes:
  assumes "b \<in> set (spec_batches n)"
  shows "fst b \<le> snd b \<and> snd b - fst b + 1 \<le> STEP \<and> 1 \<le> fst b \<and> snd b \<le> n"
proof -
  from assms obtain j where j: "j < length (spec_batches n)" and b: "b = spec_batches n ! j"
    by (auto simp: in_set_conv_nth)
  from j have "STEP * int j + 1 \<le> n"
    by (simp add: batch_index_less_nat)
  with b j show ?thesis
    by (simp add: spec_batches_nth STEP_def)
qed

lemma spec_batches_100: "spec_batches 100 = [(1, 40), (41, 80), (81, 100)]"
  by (simp add: spec_batches_def STEP_def upt_rec)

subsection \<open>What a parse can select\<close>

lemma insert_range_result:
  "insert_range p b idx = Inr r \<Longrightarrow> r = idx \<union> {p..b}"
proof (induction p b idx rule: insert_range.induct)
  case (1 p b idx)
  show ?case
  proof (cases "p \<le> b")
    case True
    from "1.prems" True have ne: "p \<noteq> INT_MAX"
      by (subst (asm) insert_range.simps) (auto split: if_splits)
    with "1.prems" True have "insert_range (p + 1) b (insert p idx) = Inr r"
      by (subst (asm) insert_range.simps) simp
    with "1.IH" True ne have "r = insert p idx \<union> {p + 1..b}" by simp
    moreover have "{p..b} = insert p {p + 1..b}"
      using True by auto
    ultimately show ?thesis by simp
  next
    case False
    with "1.prems" show ?thesis
      by (subst (asm) insert_range.simps) simp
  qed
qed

lemma parse_token_range:
  assumes "parse_token tok maxPage idx = Inr idx'" and "idx \<subseteq> {1..maxPage}"
  shows "idx' \<subseteq> {1..maxPage}"
proof (cases "find_char tok CHR ''-''")
  case None
  with assms show ?thesis
    by (auto simp: parse_token_def split: sum.splits if_splits)
next
  case (Some dash)
  with assms(1) obtain a0 b0 where
    r: "insert_range (max (if a0 > b0 then b0 else a0) 1) (min (if a0 > b0 then a0 else b0) maxPage) idx = Inr idx'"
    by (auto simp: parse_token_def Let_def split: sum.splits)
  from insert_range_result [OF r] assms(2) show ?thesis
    by auto
qed

lemma parse_loop_range:
  "parse_loop ss maxPage idx = Inr wanted \<Longrightarrow> idx \<subseteq> {1..maxPage} \<Longrightarrow> wanted \<subseteq> {1..maxPage}"
proof (induction ss maxPage idx rule: parse_loop.induct)
  case (1 ss maxPage idx)
  show ?case
  proof (cases "getline ss CHR '',''")
    case None
    with "1.prems" show ?thesis
      by (subst (asm) parse_loop.simps) simp
  next
    case (Some tr)
    obtain tok rest where tr: "tr = (tok, rest)" by (cases tr)
    from "1.prems"(1) Some tr obtain idx' where
      t: "parse_token tok maxPage idx = Inr idx'" and l: "parse_loop rest maxPage idx' = Inr wanted"
      by (subst (asm) parse_loop.simps) (auto split: sum.splits)
    from parse_token_range [OF t "1.prems"(2)] have "idx' \<subseteq> {1..maxPage}" .
    with "1.IH" [OF Some tr [symmetric] t l] show ?thesis .
  qed
qed

lemma parseSpec_range:
  assumes "parseSpec spec maxPage = Inr wanted"
  shows "wanted \<subseteq> {1..maxPage}"
proof (cases "spec = ''all''")
  case True
  with assms have "insert_range 1 maxPage {} = Inr wanted"
    by (simp add: parseSpec_def)
  from insert_range_result [OF this] show ?thesis by simp
next
  case False
  with assms have "parse_loop spec maxPage {} = Inr wanted"
    by (simp add: parseSpec_def)
  from parse_loop_range [OF this] show ?thesis by simp
qed

subsection \<open>Calls of a run\<close>

lemma stamped_in_batches:
  "StampPage p \<in> set (concat (map (batch_events env wanted) bs)) \<longleftrightarrow>
   p \<in> wanted \<and> page_loads env (p - 1) \<and> p \<in> set (concat (map (\<lambda>b. [fst b..snd b]) bs))"
  by (auto simp: batch_events_def page_events_def split: if_splits)

lemma stamped_pages:
  assumes "wanted \<subseteq> {1..n}"
  shows "{p. StampPage p \<in> set (pre @ concat (map (batch_events env wanted) (spec_batches n)) @ post)} =
         {p. StampPage p \<in> set pre \<or> StampPage p \<in> set post} \<union> {p \<in> wanted. page_loads env (p - 1)}"
proof -
  have m: "StampPage p \<in> set (concat (map (batch_events env wanted) (spec_batches n))) \<longleftrightarrow>
           p \<in> wanted \<and> page_loads env (p - 1)" for p
  proof -
    have "p \<in> wanted \<Longrightarrow> p \<in> set [1..n]"
      using assms by auto
    then show ?thesis
      unfolding stamped_in_batches spec_batches_partition by blast
  qed
  show ?thesis
    unfolding set_append Un_iff m by blast
qed


lemma parseSpec_all: "maxPage < INT_MAX \<Longrightarrow> parseSpec ''all'' maxPage = Inr {1..maxPage}"
  by (simp add: parseSpec_def insert_range_eq)

lemma parseSpec_1: "parseSpec ''1'' 100 = Inr {1}"
  by (simp add: parseSpec_def parse_loop.simps getline_def parse_token_def stoi_def
      isspace_def isdigit_def digit_val_def INT_MAX_def INT_MIN_def)

lemma neg_div_neg_STEP: "- (- n div 40) = (n + 39) div (40::int)"
proof -
  define q r where "q = (n + 39) div 40" and "r = (n + 39) mod 40"
  have n: "n + 39 = 40 * q + r"
    unfolding q_def r_def by simp
  have r: "0 \<le> r" "r < 40"
    unfolding r_def by simp_all
  have "- n = 40 * (- q) + (39 - r)"
    using n by simp
  moreover have "0 \<le> 39 - r" "39 - r < 40"
    using r by simp_all
  ultimately have "- n div 40 = - q"
    by (rule int_div_pos_eq)
  then show ?thesis
    by (simp add: q_def)
qed

lemma ceiling_batches:
  "int (length (spec_batches n)) = max 0 \<lceil>real_of_int n / real_of_int STEP\<rceil>"
proof -
  have "\<lceil>real_of_int n / real_of_int STEP\<rceil> = - (- n div STEP)"
    by (rule ceiling_divide_eq_div)
  also have "\<dots> = (n + STEP - 1) div STEP"
    using neg_div_neg_STEP [of n] by (simp add: STEP_def)
  finally show ?thesis
    by (simp add: length_spec_batches)
qed

lemma batch_events_all_load:
  assumes "\<forall>p \<in> {fst b..snd b}. p \<in> wanted \<and> page_loads env (p - 1)"
  shows "batch_events env wanted b = concat (map stamp_calls [fst b..snd b]) @ [SaveWithVersion]"
proof -
  have "map (page_events env wanted) [fst b..snd b] = map stamp_calls [fst b..snd b]"
  proof (rule map_cong [OF refl])
    fix p assume "p \<in> set [fst b..snd b]"
    with assms show "page_events env wanted p = stamp_calls p"
      by (simp add: page_events_def stamp_calls_def)
  qed
  then show ?thesis
    by (simp only: batch_events_def)
qed

lemma last_batches:
  "bs \<noteq> [] \<Longrightarrow> last (pre @ concat (map (batch_events env wanted) bs)) = SaveWithVersion"
proof -
  assume "bs \<noteq> []"
  then obtain xs x where bs: "bs = xs @ [x]"
    by (metis rev_exhaust)
  show ?thesis
    unfolding bs by (simp add: batch_events_def)
qed

lemma cleanup_not_in_batches:
  "CloseDocument \<notin> set (concat (map (batch_events env wanted) bs)) \<and>
   DestroyLibrary \<notin> set (concat (map (batch_events env wanted) bs))"
  by (auto simp: batch_events_def page_events_def split: if_splits)

lemma loaded_in_batches:
  "LoadPage (p - 1) \<in> set (concat (map (batch_events env wanted) bs)) \<longleftrightarrow>
   p \<in> wanted \<and> p \<in> set (concat (map (\<lambda>b. [fst b..snd b]) bs))"
  by (auto simp: batch_events_def page_events_def split: if_splits)

lemma loaded_pages:
  assumes "wanted \<subseteq> {1..n}"
  shows "{p. LoadPage (p - 1) \<in> set (pre @ concat (map (batch_events env wanted) (spec_batches n)) @ post)} =
         {p. LoadPage (p - 1) \<in> set pre \<or> LoadPage (p - 1) \<in> set post} \<union> wanted"
proof -
  have m: "LoadPage (p - 1) \<in> set (concat (map (batch_events env wanted) (spec_batches n))) \<longleftrightarrow>
           p \<in> wanted" for p
  proof -
    have "p \<in> wanted \<Longrightarrow> p \<in> set [1..n]"
      using assms by auto
    then show ?thesis
      unfolding loaded_in_batches spec_batches_partition by blast
  qed
  show ?thesis
    unfolding set_append Un_iff m by blast
qed

text \<open>The equations that evaluate a run on given arguments.\<close>

lemmas run_defs =
  InplaceIncrementalStamp_def parseSpec_def parse_loop.simps getline_def parse_token_def
  stoi_def isspace_def isdigit_def digit_val_def INT_MAX_def INT_MIN_def insert_range.simps
  batch_loop.simps batch_body_def page_loop.simps page_events_def save_def STEP_def
  prepare_output_eq fwrite_def sample_env_def

subsection \<open>Decimal numerals and the tokens of a spec\<close>

lemma digit_char_code: "d < 10 \<Longrightarrow> (of_char (digit_char d) :: nat) = 48 + d"
  by (simp add: digit_char_def)

lemma digit_char_props:
  assumes "d < 10"
  shows "isdigit (digit_char d)" and "digit_val (digit_char d) = d"
    and "\<not> isspace (digit_char d)"
    and "digit_char d \<noteq> CHR ''-''" and "digit_char d \<noteq> CHR ''+''" and "digit_char d \<noteq> CHR '',''"
proof -
  note c = digit_char_code [OF assms]
  show "isdigit (digit_char d)" "digit_val (digit_char d) = d" "\<not> isspace (digit_char d)"
    using assms by (simp_all add: isdigit_def digit_val_def isspace_def c)
  have "(of_char (digit_char d) :: nat) \<noteq> of_char CHR ''-''"
    "(of_char (digit_char d) :: nat) \<noteq> of_char CHR ''+''"
    "(of_char (digit_char d) :: nat) \<noteq> of_char CHR '',''"
    unfolding c by simp_all
  then show "digit_char d \<noteq> CHR ''-''" "digit_char d \<noteq> CHR ''+''" "digit_char d \<noteq> CHR '',''"
    by auto
qed

lemma show_nat_digits: "c \<in> set (show_nat n) \<Longrightarrow> \<exists>d<10. c = digit_char d"
proof (induction n rule: show_nat.induct)
  case (1 n)
  show ?case
  proof (cases "n < 10")
    case True
    with "1.prems" show ?thesis
      by (subst (asm) show_nat.simps) auto
  next
    case False
    with "1.prems" have "c \<in> set (show_nat (n div 10)) \<or> c = digit_char (n mod 10)"
      by (subst (asm) show_nat.simps) auto
    with "1.IH" False show ?thesis
      by (metis mod_less_divisor zero_less_numeral)
  qed
qed

lemma show_nat_nonempty: "show_nat n \<noteq> []"
  by (subst show_nat.simps) simp

lemma digits_value_append:
  "digits_value acc (xs @ [c]) = digits_value acc xs * 10 + digit_val c"
  by (induction xs arbitrary: acc) simp_all

lemma digits_value_show_nat: "digits_value 0 (show_nat n) = n"
proof (induction n rule: show_nat.induct)
  case (1 n)
  show ?case
  proof (cases "n < 10")
    case True
    then show ?thesis
      by (subst show_nat.simps) (simp add: digit_char_props)
  next
    case False
    with "1.IH" show ?thesis
      by (subst show_nat.simps) (simp add: digits_value_append digit_char_props)
  qed
qed

lemma show_nat_chars:
  assumes "c \<in> set (show_nat n)"
  shows "isdigit c" and "\<not> isspace c" and "c \<noteq> CHR ''-''" and "c \<noteq> CHR ''+''" and "c \<noteq> CHR '',''"
  using show_nat_digits [OF assms] digit_char_props by auto

lemma dropWhile_none: "(\<And>c. c \<in> set xs \<Longrightarrow> \<not> P c) \<Longrightarrow> dropWhile P xs = xs"
  by (cases xs) simp_all

lemma takeWhile_all: "(\<And>c. c \<in> set xs \<Longrightarrow> P c) \<Longrightarrow> takeWhile P xs = xs"
  by (simp add: takeWhile_eq_all_conv)

lemma stoi_show_nat:
  assumes "int n \<le> INT_MAX"
  shows "stoi (show_nat n) = Inr (int n)"
proof -
  have d: "dropWhile isspace (show_nat n) = show_nat n"
    by (rule dropWhile_none) (rule show_nat_chars)
  have t: "takeWhile isdigit (show_nat n) = show_nat n"
    by (rule takeWhile_all) (rule show_nat_chars)
  have "hd (show_nat n) \<in> set (show_nat n)"
    using show_nat_nonempty by simp
  then have h: "hd (show_nat n) \<noteq> CHR ''-''" "hd (show_nat n) \<noteq> CHR ''+''"
    by (rule show_nat_chars)+
  have "\<not> int n < INT_MIN"
    by (simp add: INT_MIN_def)
  with assms show ?thesis
    by (simp add: stoi_def d t h show_nat_nonempty digits_value_show_nat)
qed

lemma stoi_show_int:
  assumes "INT_MIN \<le> i" and "i \<le> INT_MAX"
  shows "stoi (show_int i) = Inr i"
proof (cases "i < 0")
  case False
  with assms stoi_show_nat [of "nat i"] show ?thesis
    by (simp add: show_int_def)
next
  case True
  have t: "takeWhile isdigit (show_nat (nat (- i))) = show_nat (nat (- i))"
    by (rule takeWhile_all) (rule show_nat_chars)
  have s: "\<not> isspace CHR ''-''"
    by (simp add: isspace_def)
  have "\<not> INT_MAX < i" "\<not> i < INT_MIN"
    using assms by simp_all
  with True show ?thesis
    by (simp add: stoi_def show_int_def s t show_nat_nonempty digits_value_show_nat)
qed

lemma find_char_absent: "c \<notin> set xs \<Longrightarrow> find_char xs c = None"
  by (induction xs) auto

lemma find_char_first: "c \<notin> set xs \<Longrightarrow> find_char (xs @ c # ys) c = Some (length xs)"
  by (induction xs) auto

lemma takeWhile_until:
  "d \<notin> set tok \<Longrightarrow> takeWhile (\<lambda>c. c \<noteq> d) (tok @ d # rest) = tok"
  by (induction tok) auto

lemma dropWhile_until:
  "d \<notin> set tok \<Longrightarrow> dropWhile (\<lambda>c. c \<noteq> d) (tok @ d # rest) = d # rest"
  by (induction tok) auto

lemma takeWhile_absent: "d \<notin> set tok \<Longrightarrow> takeWhile (\<lambda>c. c \<noteq> d) tok = tok"
  by (induction tok) auto

lemma dropWhile_absent: "d \<notin> set tok \<Longrightarrow> dropWhile (\<lambda>c. c \<noteq> d) tok = []"
  by (induction tok) auto

lemma getline_last: "tok \<noteq> [] \<Longrightarrow> d \<notin> set tok \<Longrightarrow> getline tok d = Some (tok, [])"
  by (simp add: getline_def takeWhile_absent dropWhile_absent)

lemma getline_first: "d \<notin> set tok \<Longrightarrow> getline (tok @ d # rest) d = Some (tok, rest)"
  by (simp add: getline_def takeWhile_until dropWhile_until)

lemma parse_loop_nil: "parse_loop [] maxPage idx = Inr idx"
  by (subst parse_loop.simps) (simp add: getline_def)

lemma parse_loop_last:
  "tok \<noteq> [] \<Longrightarrow> CHR '','' \<notin> set tok \<Longrightarrow> parse_loop tok maxPage idx = parse_token tok maxPage idx"
  by (subst parse_loop.simps) (simp add: getline_last parse_loop_nil split: sum.splits)

lemma parse_loop_first:
  "CHR '','' \<notin> set tok \<Longrightarrow>
   parse_loop (tok @ CHR '','' # rest) maxPage idx =
     (case parse_token tok maxPage idx of Inl e \<Rightarrow> Inl e | Inr idx' \<Rightarrow> parse_loop rest maxPage idx')"
  by (subst parse_loop.simps) (simp add: getline_first)


lemma show_int_nonneg_chars:
  assumes "0 \<le> v" and "c \<in> set (show_int v)"
  shows "c \<noteq> CHR ''-''" and "c \<noteq> CHR '',''"
  using assms show_nat_chars [of c "nat v"] by (simp_all add: show_int_def)

lemma show_int_nonempty: "show_int v \<noteq> []"
  by (simp add: show_int_def show_nat_nonempty)

lemma show_int_no_comma: "CHR '','' \<notin> set (show_int v)"
  using show_nat_chars(5) by (auto simp: show_int_def)

lemma parse_token_range_token:
  assumes a: "0 \<le> a" "a \<le> INT_MAX" and b: "INT_MIN \<le> b" "b \<le> INT_MAX"
      and n: "maxPage < INT_MAX"
  shows "parse_token (show_int a @ ''-'' @ show_int b) maxPage idx =
           Inr (idx \<union> {max 1 (min a b)..min maxPage (max a b)})"
proof -
  have dash: "CHR ''-'' \<notin> set (show_int a)"
    using show_int_nonneg_chars(1) [OF a(1)] by blast
  have f: "find_char (show_int a @ ''-'' @ show_int b) CHR ''-'' = Some (length (show_int a))"
    using find_char_first [OF dash] by simp
  have "INT_MIN \<le> a"
    using a(1) by (simp add: INT_MIN_def)
  then have sa: "stoi (show_int a) = Inr a"
    using a(2) by (rule stoi_show_int)
  have sb: "stoi (show_int b) = Inr b"
    using b by (rule stoi_show_int)
  have lim: "min (max a b) maxPage < INT_MAX"
    using n by simp
  have sw: "(if b < a then b else a) = min a b" "(if b < a then a else b) = max a b"
    by simp_all
  have "parse_token (show_int a @ ''-'' @ show_int b) maxPage idx =
          insert_range (max (min a b) 1) (min (max a b) maxPage) idx"
    unfolding parse_token_def f by (simp add: sa sb sw Let_def)
  also have "\<dots> = Inr (idx \<union> {max (min a b) 1..min (max a b) maxPage})"
    by (rule insert_range_eq [OF lim])
  also have "max (min a b) 1 = max 1 (min a b)"
    by (rule max.commute)
  also have "min (max a b) maxPage = min maxPage (max a b)"
    by (rule min.commute)
  finally show ?thesis .
qed

lemma digit_char_numerals:
  "digit_char 0 = CHR ''0''" "digit_char 1 = CHR ''1''" "digit_char 2 = CHR ''2''"
  "digit_char 3 = CHR ''3''" "digit_char 4 = CHR ''4''" "digit_char 5 = CHR ''5''"
  "digit_char 6 = CHR ''6''" "digit_char 7 = CHR ''7''" "digit_char 8 = CHR ''8''"
  "digit_char 9 = CHR ''9''" "digit_char (Suc 0) = CHR ''1''"
  by (simp_all add: digit_char_def char_of_eq_iff)

lemma show_int_0: "show_int 0 = ''0''"
  by (simp add: show_int_def show_nat.simps digit_char_numerals)

lemma show_int_3: "show_int 3 = ''3''"
  by (simp add: show_int_def show_nat.simps digit_char_numerals)

lemma show_int_11: "show_int 11 = ''11''"
  by (simp add: show_int_def show_nat.simps digit_char_numerals)

section \<open>The claims\<close>

subsection \<open>The selection parser\<close>

text \<open>
  C3, as the program has it. For a low bound \<open>a\<close> from 0 to \<open>INT_MAX\<close>, a high bound
  \<open>b\<close> from \<open>INT_MIN\<close> to \<open>INT_MAX\<close> and a page count below \<open>INT_MAX\<close>, the spec
  made of the decimal numeral of \<open>a\<close>, a dash and the decimal numeral of \<open>b\<close> parses to
  the set of the integers from \<open>max 1 (min a b)\<close> to \<open>min N (max a b)\<close>: the bounds are
  swapped when reversed and then clamped, and the set is empty when the interval is.
\<close>

theorem range_token_selects_clamped_interval:
  assumes "0 \<le> a" and "a \<le> INT_MAX" and "INT_MIN \<le> b" and "b \<le> INT_MAX"
      and "maxPage < INT_MAX"
  shows "parseSpec (show_int a @ ''-'' @ show_int b) maxPage =
           Inr {max 1 (min a b)..min maxPage (max a b)}"
proof -
  let ?tok = "show_int a @ ''-'' @ show_int b"
  have "CHR ''-'' \<in> set ?tok" by simp
  moreover have "CHR ''-'' \<notin> set ''all''" by simp
  ultimately have ne: "?tok \<noteq> ''all''" by metis
  have comma: "CHR '','' \<notin> set ?tok"
    using show_int_no_comma by simp
  have "?tok \<noteq> []" by simp
  from parse_loop_last [OF this comma]
  have "parse_loop ?tok maxPage {} = parse_token ?tok maxPage {}" .
  with ne parse_token_range_token [OF assms(1-4) assms(5), of "{}"] show ?thesis
    by (simp add: parseSpec_def)
qed

theorem range_token_selects_clamped_interval_witness:
  "show_int 0 @ ''-'' @ show_int 3 = ''0-3'' \<and> parseSpec ''0-3'' 10 = Inr {1..3}"
  using range_token_selects_clamped_interval [of 0 3 10]
  by (simp add: show_int_0 show_int_3 INT_MAX_def INT_MIN_def)

text \<open>
  C3 as stated fails for a negative low bound: in the spec \<open>-3-5\<close> the first dash is
  taken for the separator, the low bound is read from the empty string and the parse
  fails with \<^verbatim>\<open>std::invalid_argument\<close>, where the claim gives the set from 1 to 5.
\<close>

theorem negative_low_bound_fails:
  "show_int (- 3) @ ''-'' @ show_int 5 = ''-3-5'' \<and>
   parseSpec ''-3-5'' 10 = Inl Invalid_argument \<and>
   {max 1 (min (- 3) 5)..min 10 (max (- 3) 5)} = {1..5::int}"
  by (simp add: show_int_def show_nat.simps digit_char_numerals parseSpec_def parse_loop.simps
      getline_def parse_token_def stoi_def isspace_def isdigit_def)

text \<open>
  C5, as the program has it. A token that is the decimal numeral of an integer from 0
  to \<open>INT_MAX\<close> lying outside the pages from 1 to \<open>maxPage\<close> is dropped: the token loop's
  body returns the set it was given, the loop goes on with the tokens after it, and a
  spec made of this token alone parses to the empty set.
\<close>

theorem out_of_range_integer_is_dropped:
  assumes "0 \<le> v" and "v \<le> INT_MAX" and "v < 1 \<or> maxPage < v"
  shows "parse_token (show_int v) maxPage idx = Inr idx \<and>
         parse_loop (show_int v @ CHR '','' # rest) maxPage idx = parse_loop rest maxPage idx \<and>
         parse_loop (show_int v) maxPage idx = Inr idx \<and>
         parseSpec (show_int v) maxPage = Inr {}"
proof -
  have dash: "CHR ''-'' \<notin> set (show_int v)"
    using show_int_nonneg_chars(1) [OF assms(1)] by blast
  have "INT_MIN \<le> v"
    using assms(1) by (simp add: INT_MIN_def)
  then have sv: "stoi (show_int v) = Inr v"
    using assms(2) by (rule stoi_show_int)
  have out: "\<not> (1 \<le> v \<and> v \<le> maxPage)"
    using assms(3) by auto
  have keep: "(if 1 \<le> v \<and> v \<le> maxPage then insert v idx' else idx') = idx'" for idx'
    using out by (rule if_not_P)
  have t: "parse_token (show_int v) maxPage idx' = Inr idx'" for idx'
    by (simp add: parse_token_def find_char_absent [OF dash] sv keep)
  have l1: "parse_loop (show_int v @ CHR '','' # rest) maxPage idx = parse_loop rest maxPage idx"
    by (simp add: parse_loop_first [OF show_int_no_comma] t)
  have l2: "parse_loop (show_int v) maxPage idx' = Inr idx'" for idx'
    by (simp add: parse_loop_last [OF show_int_nonempty show_int_no_comma] t)
  have "CHR ''a'' \<notin> set (show_int v)"
  proof
    assume "CHR ''a'' \<in> set (show_int v)"
    with assms(1) have "isdigit CHR ''a''"
      using show_nat_chars(1) [of "CHR ''a''" "nat v"] by (simp add: show_int_def)
    then show False
      by (simp add: isdigit_def)
  qed
  then have "show_int v \<noteq> ''all''"
    by auto
  then have "parseSpec (show_int v) maxPage = Inr {}"
    by (simp add: parseSpec_def l2)
  with t l1 l2 show ?thesis
    by simp
qed

theorem out_of_range_integer_is_dropped_witness:
  "show_int 0 = ''0'' \<and> show_int 11 = ''11'' \<and>
   parse_loop ''0,3'' 10 {} = parse_loop ''3'' 10 {} \<and>
   parse_loop ''11,3'' 10 {} = parse_loop ''3'' 10 {} \<and>
   parseSpec ''0'' 10 = Inr {} \<and> parseSpec ''11'' 10 = Inr {}"
  using out_of_range_integer_is_dropped [of 0 10 "{}" "''3''"]
    out_of_range_integer_is_dropped [of 11 10 "{}" "''3''"]
  by (simp add: show_int_0 show_int_11 INT_MAX_def)

text \<open>
  C5 as stated fails for negative integers: the token \<open>-5\<close> holds a dash, so it is read
  as a range whose low bound is the empty string, and the parse fails with
  \<^verbatim>\<open>std::invalid_argument\<close>, alone and after other tokens.
\<close>

theorem negative_integer_token_fails:
  "show_int (- 5) = ''-5'' \<and>
   parse_token ''-5'' 10 {} = Inl Invalid_argument \<and>
   parseSpec ''-5'' 10 = Inl Invalid_argument \<and>
   parseSpec ''1,-5'' 10 = Inl Invalid_argument"
  by (simp add: show_int_def show_nat.simps digit_char_numerals parseSpec_def parse_loop.simps
      getline_def parse_token_def stoi_def isspace_def isdigit_def digit_val_def INT_MAX_def INT_MIN_def)

subsection \<open>Empty selections\<close>

text \<open>
  C2, as the program has it. On a document that loads, the empty spec selects nothing:
  the run returns false with the diagnostic "no pages matched" and the exit status is 1.
  The selection is checked before the output file is opened, so the program never opens
  or writes the output file: it holds what it held before the run, no verbatim copy is
  made and no save is issued.
\<close>

theorem empty_spec_leaves_output_untouched:
  assumes "doc_loads env"
  shows "InplaceIncrementalStamp env [] =
           (Returned_false No_pages_matched,
            \<lparr>trace = [InitLibrary, LoadCustomDocument, GetPageCount], out = None\<rparr>) \<and>
         fst (main env [inp, []]) = Some 1 \<and>
         out (snd (main env [inp, []])) = None \<and>
         out_bytes env (snd (main env [inp, []])) = out_before env \<and>
         SaveWithVersion \<notin> set (trace (snd (main env [inp, []])))"
proof -
  have r: "InplaceIncrementalStamp env [] =
           (Returned_false No_pages_matched,
            \<lparr>trace = [InitLibrary, LoadCustomDocument, GetPageCount], out = None\<rparr>)"
    using assms by (simp add: InplaceIncrementalStamp_def parseSpec_empty)
  have m: "main env [inp, []] =
             (Some 1, case in_bytes env of None \<Rightarrow> \<lparr>trace = [], out = None\<rparr>
                      | Some input \<Rightarrow> \<lparr>trace = [InitLibrary, LoadCustomDocument, GetPageCount], out = None\<rparr>)"
    using r by (simp add: main_def split: option.splits)
  show ?thesis
    using r m by (simp add: out_bytes_def split: option.splits)
qed

theorem empty_spec_leaves_output_untouched_witness:
  "doc_loads (sample_env ''ABCDEF'' 3) \<and>
   fst (main (sample_env ''ABCDEF'' 3) [''in.pdf'', []]) = Some 1 \<and>
   out_bytes (sample_env ''ABCDEF'' 3) (snd (main (sample_env ''ABCDEF'' 3) [''in.pdf'', []])) = None"
  using empty_spec_leaves_output_untouched [of "sample_env ''ABCDEF'' 3" "''in.pdf''"]
  by (simp add: sample_env_def)

text \<open>
  C2 as stated fails: with a six-byte input and no output file before the run, the
  run with the empty spec exits with status 1 and the output file does not hold the
  verbatim copy of the input.
\<close>

theorem empty_spec_no_verbatim_copy:
  "fst (main (sample_env ''ABCDEF'' 3) [''in.pdf'', []]) = Some 1 \<and>
   in_bytes (sample_env ''ABCDEF'' 3) = Some ''ABCDEF'' \<and>
   out_bytes (sample_env ''ABCDEF'' 3) (snd (main (sample_env ''ABCDEF'' 3) [''in.pdf'', []])) \<noteq> Some ''ABCDEF''"
  by (simp add: main_def InplaceIncrementalStamp_def parseSpec_empty sample_env_def out_bytes_def)

text \<open>
  C10. On a document that loads and has no page, the spec \<open>all\<close> selects the empty set:
  the run returns false with the diagnostic "no pages matched", after the page count was
  read and before the output file is opened, and the exit status is 1, whether \<open>all\<close>
  is given on the command line or is the default.
\<close>

theorem all_on_empty_document:
  assumes "doc_loads env" and "page_count env = 0"
  shows "parseSpec ''all'' (page_count env) = Inr {} \<and>
         InplaceIncrementalStamp env ''all'' =
           (Returned_false No_pages_matched,
            \<lparr>trace = [InitLibrary, LoadCustomDocument, GetPageCount], out = None\<rparr>) \<and>
         fst (main env (inp # ''all'' # args)) = Some 1 \<and>
         fst (main env [inp]) = Some 1"
proof -
  have p: "parseSpec ''all'' (page_count env) = Inr {}"
    using assms(2) by (simp add: parseSpec_all_zero)
  have r: "InplaceIncrementalStamp env ''all'' =
           (Returned_false No_pages_matched,
            \<lparr>trace = [InitLibrary, LoadCustomDocument, GetPageCount], out = None\<rparr>)"
    using assms(1) p by (simp add: InplaceIncrementalStamp_def)
  have m1: "fst (main env (inp # ''all'' # args)) = Some 1"
    using r by (simp add: main_def split: option.splits)
  have m2: "fst (main env [inp]) = Some 1"
    using r by (simp add: main_def split: option.splits)
  from p r m1 m2 show ?thesis by simp
qed

theorem all_on_empty_document_witness:
  "doc_loads (sample_env ''ABCDEF'' 0) \<and> page_count (sample_env ''ABCDEF'' 0) = 0 \<and>
   InplaceIncrementalStamp (sample_env ''ABCDEF'' 0) ''all'' =
     (Returned_false No_pages_matched,
      \<lparr>trace = [InitLibrary, LoadCustomDocument, GetPageCount], out = None\<rparr>) \<and>
   fst (main (sample_env ''ABCDEF'' 0) [''in.pdf'', ''all'']) = Some 1"
  using all_on_empty_document [of "sample_env ''ABCDEF'' 0" "''in.pdf''" "[]"]
  by (simp add: sample_env_def)

subsection \<open>Batches and saves\<close>

text \<open>
  C4. When the document loads, the selection is not empty, the files open and every
  save reports success, the calls of the run are: the set-up, then, for each batch of the
  specification in increasing order, the calls for the selected pages of the batch in
  increasing order followed by one save, then the clean-up. The batches cover the pages
  from 1 to the page count in order, each page once; no batch is empty or longer than
  \<open>STEP\<close>; there are as many saves as batches. On a document of 100 pages whose pages all
  load, the spec \<open>all\<close> stamps the pages 1 to 40, saves, stamps the pages 41 to 80, saves,
  stamps the pages 81 to 100 and saves: three saves.
\<close>

theorem batches_partition_pages:
  assumes "doc_loads env" and "out_opens env" and "in_bytes env = Some input"
      and "parseSpec spec (page_count env) = Inr wanted" and "wanted \<noteq> {}"
      and "page_count env \<le> INT_MAX - STEP"
      and "\<forall>s. save_ok env s"
  shows "trace (snd (InplaceIncrementalStamp env spec)) =
           [InitLibrary, LoadCustomDocument, GetPageCount] @
           concat (map (batch_events env wanted) (spec_batches (page_count env))) @
           [CloseDocument, DestroyLibrary] \<and>
         concat (map (\<lambda>b. [fst b..snd b]) (spec_batches (page_count env))) = [1..page_count env] \<and>
         (\<forall>b \<in> set (spec_batches (page_count env)). fst b \<le> snd b \<and> snd b - fst b + 1 \<le> STEP) \<and>
         count_list (trace (snd (InplaceIncrementalStamp env spec))) SaveWithVersion =
           length (spec_batches (page_count env)) \<and>
         (page_count env = 100 \<and> spec = ''all'' \<and> (\<forall>i. page_loads env i) \<longrightarrow>
            trace (snd (InplaceIncrementalStamp env spec)) =
              [InitLibrary, LoadCustomDocument, GetPageCount] @
              concat (map stamp_calls [1..40]) @ [SaveWithVersion] @
              concat (map stamp_calls [41..80]) @ [SaveWithVersion] @
              concat (map stamp_calls [81..100]) @ [SaveWithVersion] @
              [CloseDocument, DestroyLibrary])"
proof -
  from assms(7) have
    "\<forall>k. k < length (spec_batches (page_count env)) \<longrightarrow> save_ok env (STEP * int k + 1)"
    by simp
  from run_all_saved [OF assms(1-5) assms(6) this]
  have t: "trace (snd (InplaceIncrementalStamp env spec)) =
           [InitLibrary, LoadCustomDocument, GetPageCount] @
           concat (map (batch_events env wanted) (spec_batches (page_count env))) @
           [CloseDocument, DestroyLibrary]"
    by simp
  have c: "count_list (trace (snd (InplaceIncrementalStamp env spec))) SaveWithVersion =
           length (spec_batches (page_count env))"
    unfolding t by (simp add: count_batches)
  have s: "\<forall>b \<in> set (spec_batches (page_count env)). fst b \<le> snd b \<and> snd b - fst b + 1 \<le> STEP"
    using spec_batches_sizes by blast
  have a: "trace (snd (InplaceIncrementalStamp env spec)) =
              [InitLibrary, LoadCustomDocument, GetPageCount] @
              concat (map stamp_calls [1..40]) @ [SaveWithVersion] @
              concat (map stamp_calls [41..80]) @ [SaveWithVersion] @
              concat (map stamp_calls [81..100]) @ [SaveWithVersion] @
              [CloseDocument, DestroyLibrary]"
    if n: "page_count env = 100" and all: "spec = ''all''" and loads: "\<forall>i. page_loads env i"
  proof -
    have "parseSpec ''all'' 100 = Inr {1..100}"
      by (rule parseSpec_all) (simp add: INT_MAX_def)
    with assms(4) n all have w: "wanted = {1..100}" by simp
    have b1: "batch_events env wanted (1, 40) = concat (map stamp_calls [1..40]) @ [SaveWithVersion]"
      using batch_events_all_load [of "(1, 40)" wanted env] w loads by simp
    have b2: "batch_events env wanted (41, 80) = concat (map stamp_calls [41..80]) @ [SaveWithVersion]"
      using batch_events_all_load [of "(41, 80)" wanted env] w loads by simp
    have b3: "batch_events env wanted (81, 100) = concat (map stamp_calls [81..100]) @ [SaveWithVersion]"
      using batch_events_all_load [of "(81, 100)" wanted env] w loads by simp
    show ?thesis
      unfolding t n spec_batches_100 by (simp add: b1 b2 b3)
  qed
  from t c s a spec_batches_partition [of "page_count env"] show ?thesis
    by blast
qed

theorem batches_partition_pages_witness:
  "parseSpec ''all'' (page_count (sample_env ''ABCDEF'' 100)) = Inr {1..100} \<and>
   trace (snd (InplaceIncrementalStamp (sample_env ''ABCDEF'' 100) ''all'')) =
     [InitLibrary, LoadCustomDocument, GetPageCount] @
     concat (map stamp_calls [1..40]) @ [SaveWithVersion] @
     concat (map stamp_calls [41..80]) @ [SaveWithVersion] @
     concat (map stamp_calls [81..100]) @ [SaveWithVersion] @
     [CloseDocument, DestroyLibrary] \<and>
   count_list (trace (snd (InplaceIncrementalStamp (sample_env ''ABCDEF'' 100) ''all''))) SaveWithVersion = 3"
proof -
  have p: "parseSpec ''all'' (page_count (sample_env ''ABCDEF'' 100)) = Inr {1..100}"
    by (simp add: sample_env_def parseSpec_all INT_MAX_def)
  have l: "length (spec_batches (page_count (sample_env ''ABCDEF'' 100))) = 3"
    by (simp add: sample_env_def spec_batches_100)
  have h: "doc_loads (sample_env ''ABCDEF'' 100)" "out_opens (sample_env ''ABCDEF'' 100)"
    "in_bytes (sample_env ''ABCDEF'' 100) = Some ''ABCDEF''" "{1..100::int} \<noteq> {}"
    "page_count (sample_env ''ABCDEF'' 100) \<le> INT_MAX - STEP"
    "\<forall>s. save_ok (sample_env ''ABCDEF'' 100) s"
    by (simp_all add: sample_env_def INT_MAX_def STEP_def)
  have a: "page_count (sample_env ''ABCDEF'' 100) = 100 \<and> ''all'' = ''all'' \<and>
       (\<forall>i. page_loads (sample_env ''ABCDEF'' 100) i)"
    by (simp add: sample_env_def)
  note T = batches_partition_pages [OF h(1) h(2) h(3) p h(4) h(5) h(6)]
  from T a have "trace (snd (InplaceIncrementalStamp (sample_env ''ABCDEF'' 100) ''all'')) =
     [InitLibrary, LoadCustomDocument, GetPageCount] @
     concat (map stamp_calls [1..40]) @ [SaveWithVersion] @
     concat (map stamp_calls [41..80]) @ [SaveWithVersion] @
     concat (map stamp_calls [81..100]) @ [SaveWithVersion] @
     [CloseDocument, DestroyLibrary]"
    by blast
  moreover from T
  have c: "count_list (trace (snd (InplaceIncrementalStamp (sample_env ''ABCDEF'' 100) ''all''))) SaveWithVersion =
           length (spec_batches (page_count (sample_env ''ABCDEF'' 100)))"
    by blast
  have "count_list (trace (snd (InplaceIncrementalStamp (sample_env ''ABCDEF'' 100) ''all''))) SaveWithVersion = 3"
    by (simp only: c l)
  ultimately show ?thesis
    using p by blast
qed

text \<open>
  C9. The save is issued once per batch of the whole range of pages, whatever the
  selection: when the document loads and has at least one page, the selection is not
  empty, the files open and every save reports success, the run succeeds and the number
  of calls of the incremental save is the page count divided by \<open>STEP = 40\<close>, rounded up,
  which is the number of batches. The page count is an \<^verbatim>\<open>int\<close> that leaves room for one
  more step. The spec \<open>1\<close> on a document of 100 pages issues 3 saves.
\<close>

theorem one_save_per_batch:
  assumes "doc_loads env" and "out_opens env" and "in_bytes env = Some input"
      and "parseSpec spec (page_count env) = Inr wanted" and "wanted \<noteq> {}"
      and "1 \<le> page_count env" and "page_count env \<le> INT_MAX - STEP"
      and "\<forall>s. save_ok env s"
  shows "fst (InplaceIncrementalStamp env spec) = Returned_true \<and>
         int (count_list (trace (snd (InplaceIncrementalStamp env spec))) SaveWithVersion) =
           \<lceil>real_of_int (page_count env) / real_of_int STEP\<rceil> \<and>
         count_list (trace (snd (InplaceIncrementalStamp env spec))) SaveWithVersion =
           length (spec_batches (page_count env))"
proof -
  from assms(8) have
    "\<forall>k. k < length (spec_batches (page_count env)) \<longrightarrow> save_ok env (STEP * int k + 1)"
    by simp
  from run_all_saved [OF assms(1-5) assms(7) this]
  have r: "fst (InplaceIncrementalStamp env spec) = Returned_true"
    and t: "trace (snd (InplaceIncrementalStamp env spec)) =
           [InitLibrary, LoadCustomDocument, GetPageCount] @
           concat (map (batch_events env wanted) (spec_batches (page_count env))) @
           [CloseDocument, DestroyLibrary]"
    by simp_all
  have c: "count_list (trace (snd (InplaceIncrementalStamp env spec))) SaveWithVersion =
           length (spec_batches (page_count env))"
    unfolding t by (simp add: count_batches)
  have "0 < real_of_int (page_count env) / real_of_int STEP"
    using assms(6) by (simp add: STEP_def)
  then have "0 \<le> \<lceil>real_of_int (page_count env) / real_of_int STEP\<rceil>"
    by linarith
  with ceiling_batches [of "page_count env"] c r show ?thesis
    by simp
qed

theorem one_save_per_batch_witness:
  "parseSpec ''1'' (page_count (sample_env ''ABCDEF'' 100)) = Inr {1} \<and>
   fst (InplaceIncrementalStamp (sample_env ''ABCDEF'' 100) ''1'') = Returned_true \<and>
   count_list (trace (snd (InplaceIncrementalStamp (sample_env ''ABCDEF'' 100) ''1''))) SaveWithVersion = 3"
proof -
  have p: "parseSpec ''1'' (page_count (sample_env ''ABCDEF'' 100)) = Inr {1}"
    by (simp add: sample_env_def parseSpec_1)
  have "length (spec_batches (page_count (sample_env ''ABCDEF'' 100))) = 3"
    by (simp add: sample_env_def spec_batches_100)
  with one_save_per_batch [OF _ _ _ p, of "''ABCDEF''"] p show ?thesis
    by (simp add: sample_env_def INT_MAX_def STEP_def)
qed

text \<open>
  C6. When the document loads, the selection is not empty, the files open and the save
  of some batch reports failure, the run returns false with the diagnostic "save err" and
  the exit status is 1. The run ends with the first save that fails: the calls made are
  those of the batches up to and including that one, with one save each, the failed save
  is the last call, so it is not repeated and no later batch is touched.
\<close>

theorem failed_save_ends_run:
  assumes "doc_loads env" and "out_opens env" and "in_bytes env = Some input"
      and "parseSpec spec (page_count env) = Inr wanted" and "wanted \<noteq> {}"
      and "page_count env \<le> INT_MAX - STEP"
      and "\<exists>b \<in> set (spec_batches (page_count env)). \<not> save_ok env (fst b)"
  shows "fst (InplaceIncrementalStamp env spec) = Returned_false Save_err \<and>
         fst (main env (inp # spec # args)) = Some 1 \<and>
         (\<exists>k < length (spec_batches (page_count env)).
            \<not> save_ok env (fst (spec_batches (page_count env) ! k)) \<and>
            (\<forall>i < k. save_ok env (fst (spec_batches (page_count env) ! i))) \<and>
            trace (snd (InplaceIncrementalStamp env spec)) =
              [InitLibrary, LoadCustomDocument, GetPageCount] @
              concat (map (batch_events env wanted) (take (Suc k) (spec_batches (page_count env)))) \<and>
            count_list (trace (snd (InplaceIncrementalStamp env spec))) SaveWithVersion = Suc k) \<and>
         last (trace (snd (InplaceIncrementalStamp env spec))) = SaveWithVersion"
proof -
  let ?bs = "spec_batches (page_count env)"
  let ?P = "\<lambda>k. k < length ?bs \<and> \<not> save_ok env (fst (?bs ! k))"
  from assms(7) obtain b where "b \<in> set ?bs" and nb: "\<not> save_ok env (fst b)"
    by blast
  then obtain k0 where "k0 < length ?bs" and "?bs ! k0 = b"
    by (auto simp: in_set_conv_nth)
  with nb have "\<exists>k. ?P k"
    by auto
  then obtain k where k: "?P k" and least: "\<forall>i < k. \<not> ?P i"
    using exists_least_iff [of ?P] by blast
  from k have kl: "k < length ?bs" and bad: "\<not> save_ok env (fst (?bs ! k))"
    by simp_all
  from least kl have before: "\<forall>i < k. save_ok env (fst (?bs ! i))"
    by auto
  from bad kl have bad': "\<not> save_ok env (STEP * int k + 1)"
    by (simp add: spec_batches_nth)
  from before kl have before': "\<forall>i. i < k \<longrightarrow> save_ok env (STEP * int i + 1)"
    by (auto simp: spec_batches_nth)
  from run_save_fails [OF assms(1-6) kl bad' before']
  have r: "fst (InplaceIncrementalStamp env spec) = Returned_false Save_err"
    and t: "trace (snd (InplaceIncrementalStamp env spec)) =
           [InitLibrary, LoadCustomDocument, GetPageCount] @
           concat (map (batch_events env wanted) (take (Suc k) ?bs))"
    by simp_all
  have m: "fst (main env (inp # spec # args)) = Some 1"
    using main_exit_status(1) [OF assms(3)] r by simp
  have c: "count_list (trace (snd (InplaceIncrementalStamp env spec))) SaveWithVersion = Suc k"
    unfolding t using kl by (simp add: count_batches)
  have "take (Suc k) ?bs \<noteq> []"
    using kl by auto
  then have l: "last (trace (snd (InplaceIncrementalStamp env spec))) = SaveWithVersion"
    unfolding t by (rule last_batches)
  from r m kl bad before t c l show ?thesis
    by blast
qed

theorem failed_save_ends_run_witness:
  "parseSpec ''1,50,90'' (page_count ((sample_env ''ABCDEF'' 100)\<lparr>save_ok := (\<lambda>s. s \<noteq> 41)\<rparr>)) = Inr {1, 50, 90} \<and>
   fst (InplaceIncrementalStamp ((sample_env ''ABCDEF'' 100)\<lparr>save_ok := (\<lambda>s. s \<noteq> 41)\<rparr>) ''1,50,90'') =
     Returned_false Save_err \<and>
   fst (main ((sample_env ''ABCDEF'' 100)\<lparr>save_ok := (\<lambda>s. s \<noteq> 41)\<rparr>) [''in.pdf'', ''1,50,90'']) = Some 1 \<and>
   last (trace (snd (InplaceIncrementalStamp ((sample_env ''ABCDEF'' 100)\<lparr>save_ok := (\<lambda>s. s \<noteq> 41)\<rparr>) ''1,50,90''))) =
     SaveWithVersion"
proof -
  let ?env = "(sample_env ''ABCDEF'' 100)\<lparr>save_ok := (\<lambda>s. s \<noteq> 41)\<rparr>"
  have p: "parseSpec ''1,50,90'' (page_count ?env) = Inr {1, 50, 90}"
    by (simp add: sample_env_def parseSpec_def parse_loop.simps getline_def parse_token_def
        stoi_def isspace_def isdigit_def digit_val_def INT_MAX_def INT_MIN_def insert_commute)
  have h: "doc_loads ?env" "out_opens ?env" "in_bytes ?env = Some ''ABCDEF''"
    "{1, 50, 90 :: int} \<noteq> {}" "page_count ?env \<le> INT_MAX - STEP"
    by (simp_all add: sample_env_def INT_MAX_def STEP_def)
  have b: "\<exists>b \<in> set (spec_batches (page_count ?env)). \<not> save_ok ?env (fst b)"
    by (simp add: sample_env_def spec_batches_100)
  from failed_save_ends_run [OF h(1) h(2) h(3) p h(4) h(5) b, of "''in.pdf''" "[]"] p
  show ?thesis
    by blast
qed

subsection \<open>Pages that do not load\<close>

text \<open>
  C7. When the document loads, the selection is not empty, the files open and every
  save reports success, the run returns true and the exit status is 0 whichever pages
  fail to load: a load is attempted for exactly the selected pages, the pages stamped are
  exactly the selected pages that load, and every batch is saved.
\<close>

theorem unloadable_pages_are_skipped:
  assumes "doc_loads env" and "out_opens env" and "in_bytes env = Some input"
      and "parseSpec spec (page_count env) = Inr wanted" and "wanted \<noteq> {}"
      and "page_count env \<le> INT_MAX - STEP"
      and "\<forall>s. save_ok env s"
  shows "fst (InplaceIncrementalStamp env spec) = Returned_true \<and>
         fst (main env (inp # spec # args)) = Some 0 \<and>
         {p. StampPage p \<in> set (trace (snd (InplaceIncrementalStamp env spec)))} =
           {p \<in> wanted. page_loads env (p - 1)} \<and>
         {p. LoadPage (p - 1) \<in> set (trace (snd (InplaceIncrementalStamp env spec)))} = wanted \<and>
         count_list (trace (snd (InplaceIncrementalStamp env spec))) SaveWithVersion =
           length (spec_batches (page_count env))"
proof -
  from assms(7) have
    "\<forall>k. k < length (spec_batches (page_count env)) \<longrightarrow> save_ok env (STEP * int k + 1)"
    by simp
  from run_all_saved [OF assms(1-6) this]
  have r: "fst (InplaceIncrementalStamp env spec) = Returned_true"
    and t: "trace (snd (InplaceIncrementalStamp env spec)) =
           [InitLibrary, LoadCustomDocument, GetPageCount] @
           concat (map (batch_events env wanted) (spec_batches (page_count env))) @
           [CloseDocument, DestroyLibrary]"
    by simp_all
  have m: "fst (main env (inp # spec # args)) = Some 0"
    using main_exit_status(1) [OF assms(3)] r by simp
  have sub: "wanted \<subseteq> {1..page_count env}"
    by (rule parseSpec_range [OF assms(4)])
  have st: "{p. StampPage p \<in> set (trace (snd (InplaceIncrementalStamp env spec)))} =
           {p \<in> wanted. page_loads env (p - 1)}"
    unfolding t
    using stamped_pages [OF sub, of "[InitLibrary, LoadCustomDocument, GetPageCount]" env
        "[CloseDocument, DestroyLibrary]"]
    by simp
  have ld: "{p. LoadPage (p - 1) \<in> set (trace (snd (InplaceIncrementalStamp env spec)))} = wanted"
    unfolding t
    using loaded_pages [OF sub, of "[InitLibrary, LoadCustomDocument, GetPageCount]" env
        "[CloseDocument, DestroyLibrary]"]
    by simp
  have c: "count_list (trace (snd (InplaceIncrementalStamp env spec))) SaveWithVersion =
           length (spec_batches (page_count env))"
    unfolding t by (simp add: count_batches)
  from r m st ld c show ?thesis
    by blast
qed

theorem unloadable_pages_are_skipped_witness:
  "parseSpec ''all'' (page_count ((sample_env ''ABCDEF'' 3)\<lparr>page_loads := (\<lambda>i. i \<noteq> 1)\<rparr>)) = Inr {1..3} \<and>
   \<not> page_loads ((sample_env ''ABCDEF'' 3)\<lparr>page_loads := (\<lambda>i. i \<noteq> 1)\<rparr>) (2 - 1) \<and>
   fst (InplaceIncrementalStamp ((sample_env ''ABCDEF'' 3)\<lparr>page_loads := (\<lambda>i. i \<noteq> 1)\<rparr>) ''all'') =
     Returned_true \<and>
   fst (main ((sample_env ''ABCDEF'' 3)\<lparr>page_loads := (\<lambda>i. i \<noteq> 1)\<rparr>) [''in.pdf'', ''all'']) = Some 0 \<and>
   {p. StampPage p \<in> set (trace (snd (InplaceIncrementalStamp
        ((sample_env ''ABCDEF'' 3)\<lparr>page_loads := (\<lambda>i. i \<noteq> 1)\<rparr>) ''all'')))} = {1, 3}"
proof -
  let ?env = "(sample_env ''ABCDEF'' 3)\<lparr>page_loads := (\<lambda>i. i \<noteq> 1)\<rparr>"
  have p: "parseSpec ''all'' (page_count ?env) = Inr {1..3}"
    by (simp add: sample_env_def parseSpec_all INT_MAX_def)
  have h: "doc_loads ?env" "out_opens ?env" "in_bytes ?env = Some ''ABCDEF''"
    "{1..3 :: int} \<noteq> {}" "page_count ?env \<le> INT_MAX - STEP" "\<forall>s. save_ok ?env s"
    by (simp_all add: sample_env_def INT_MAX_def STEP_def)
  have n: "\<not> page_loads ?env (2 - 1)"
    by (simp add: sample_env_def)
  have s: "{p \<in> {1..3}. page_loads ?env (p - 1)} = {1, 3}"
    by (auto simp: sample_env_def)
  from unloadable_pages_are_skipped [OF h(1) h(2) h(3) p h(4) h(5) h(6), of "''in.pdf''" "[]"] p n s
  show ?thesis
    by (simp only:) blast
qed

subsection \<open>The append point\<close>

text \<open>
  C1, evaluated on a failing input. With a six-byte input file, the output file holds the
  six bytes after the copy and the position indicator is 0, not 6: \<^verbatim>\<open>std::rewind\<close>
  moves it to the beginning of the file. On a document of one page, with a library whose
  save writes the block \<open>xy\<close>, the run succeeds and the output file holds \<open>xyCDEF\<close>: the
  save has overwritten the first two bytes of the copy.
\<close>

theorem rewind_moves_cursor_to_start:
  "bytes (prepare_output ''ABCDEF'' fopen_wb) = ''ABCDEF'' \<and>
   pos (prepare_output ''ABCDEF'' fopen_wb) = 0 \<and>
   fst (InplaceIncrementalStamp (sample_env ''ABCDEF'' 1) ''all'') = Returned_true \<and>
   out_bytes (sample_env ''ABCDEF'' 1) (snd (InplaceIncrementalStamp (sample_env ''ABCDEF'' 1) ''all'')) =
     Some ''xyCDEF''"
  by (simp add: run_defs out_bytes_def)

subsection \<open>Clean-up on the early exits\<close>

text \<open>
  C8, evaluated on failing inputs. On the empty selection the run returns false and
  has called neither \<^verbatim>\<open>FPDF_CloseDocument\<close> nor \<^verbatim>\<open>FPDF_DestroyLibrary\<close>; when the first
  save fails, the failed save is the last call of the run; when the document does not
  load, the last call is \<^verbatim>\<open>FPDF_GetLastError\<close> and the library is not released.
\<close>

theorem early_exits_skip_cleanup:
  "fst (InplaceIncrementalStamp (sample_env ''ABCDEF'' 3) []) = Returned_false No_pages_matched \<and>
   count_list (trace (snd (InplaceIncrementalStamp (sample_env ''ABCDEF'' 3) []))) CloseDocument = 0 \<and>
   count_list (trace (snd (InplaceIncrementalStamp (sample_env ''ABCDEF'' 3) []))) DestroyLibrary = 0 \<and>
   fst (InplaceIncrementalStamp ((sample_env ''ABCDEF'' 3)\<lparr>save_ok := (\<lambda>s. False)\<rparr>) ''all'') =
     Returned_false Save_err \<and>
   trace (snd (InplaceIncrementalStamp ((sample_env ''ABCDEF'' 3)\<lparr>save_ok := (\<lambda>s. False)\<rparr>) ''all'')) =
     [InitLibrary, LoadCustomDocument, GetPageCount, LoadPage 0, StampPage 1, ClosePage 1,
      LoadPage 1, StampPage 2, ClosePage 2, LoadPage 2, StampPage 3, ClosePage 3, SaveWithVersion] \<and>
   InplaceIncrementalStamp ((sample_env ''ABCDEF'' 3)\<lparr>doc_loads := False\<rparr>) ''all'' =
     (Returned_false Load_err, \<lparr>trace = [InitLibrary, LoadCustomDocument, GetLastError], out = None\<rparr>)"
  by (simp add: run_defs)

end
